theory Spec2Isabelle
  imports Complex_Main "HOL-Library.Multiset" "HOL-Library.Sublist"
begin

section \<open>The quiz pages of marketing\_quiz\_app\<close>

text \<open>
  The repository holds two quiz pages with the same state cells and handlers: the main page
  (\<^verbatim>\<open>src/app/page.tsx\<close>, with analytics) and the notes quiz
  (\<^verbatim>\<open>src/app/notes-quiz/page.tsx\<close>). Where the two differ, the definition taken from
  the notes quiz carries the suffix \<open>_notes\<close>.
\<close>

subsection \<open>Randomness\<close>

text \<open>
  \<^verbatim>\<open>Math.random()\<close> is a stream of draws. A draw is a natural number \<open>d\<close>, and
  \<^verbatim>\<open>Math.floor(Math.random() * n)\<close> is \<open>d mod n\<close>: every index below \<open>n\<close> can come
  out, and nothing else can.
\<close>

type_synonym rng = "nat \<Rightarrow> nat"

definition random_below :: "nat \<Rightarrow> rng \<Rightarrow> nat \<times> rng" where
  "random_below n r = (r 0 mod n, \<lambda>k. r (Suc k))"

subsection \<open>shuffleArray\<close>

text \<open>
  \<^verbatim>\<open>
  const shuffleArray = <T,>(array: T[]): T[] => {
    const newArray = [...array];
    for (let i = newArray.length - 1; i > 0; i--) {
      const j = Math.floor(Math.random() * (i + 1));
      [newArray[i], newArray[j]] = [newArray[j], newArray[i]];
    }
    return newArray;
  };
  \<close>
  The loop runs on the local copy, for \<open>i\<close> from \<open>length - 1\<close> down to \<open>1\<close>.
\<close>

definition swap :: "nat \<Rightarrow> nat \<Rightarrow> 'a list \<Rightarrow> 'a list" where
  "swap i j xs = xs[i := xs ! j, j := xs ! i]"

fun shuffle_loop :: "nat \<Rightarrow> 'a list \<Rightarrow> rng \<Rightarrow> 'a list \<times> rng" where
  "shuffle_loop 0 newArray r = (newArray, r)"
| "shuffle_loop (Suc k) newArray r =
     (let (j, r') = random_below (Suc k + 1) r
      in shuffle_loop k (swap (Suc k) j newArray) r')"

definition shuffleArray :: "'a list \<Rightarrow> rng \<Rightarrow> 'a list \<times> rng" where
  "shuffleArray array r = shuffle_loop (length array - 1) array r"

text \<open>
  Arrays are objects: the same function over a store of arrays, where a reference is an
  index into the store, \<^verbatim>\<open>[...array]\<close> allocates a new array and the swaps write into
  that one.
\<close>

type_synonym 'a store = "'a list list"

definition alloc :: "'a list \<Rightarrow> 'a store \<Rightarrow> nat \<times> 'a store" where
  "alloc xs st = (length st, st @ [xs])"

fun shuffle_loop_st :: "nat \<Rightarrow> nat \<Rightarrow> 'a store \<Rightarrow> rng \<Rightarrow> 'a store \<times> rng" where
  "shuffle_loop_st 0 newArray st r = (st, r)"
| "shuffle_loop_st (Suc k) newArray st r =
     (let (j, r') = random_below (Suc k + 1) r
      in shuffle_loop_st k newArray (st[newArray := swap (Suc k) j (st ! newArray)]) r')"

definition shuffleArray_st :: "nat \<Rightarrow> 'a store \<Rightarrow> rng \<Rightarrow> nat \<times> 'a store \<times> rng" where
  "shuffleArray_st array st r =
     (let (newArray, st1) = alloc (st ! array) st;
          (st2, r') = shuffle_loop_st (length (st1 ! newArray) - 1) newArray st1 r
      in (newArray, st2, r'))"

subsection \<open>Questions\<close>

text \<open>
  \<^verbatim>\<open>types.ts\<close> declares \<^verbatim>\<open>Alternative {label, text}\<close> and
  \<^verbatim>\<open>Question {number, question_text, alternatives, pdf_filename, correct_answer}\<close>.
  The questions come from a JSON file that nothing validates, and the code itself tests
  whether \<^verbatim>\<open>alternatives\<close> is an array and whether \<^verbatim>\<open>pdf_filename\<close> is
  there: \<open>alternatives\<close> is any JavaScript value (\<open>JUndefined\<close> when the field is
  missing), \<open>pdf_filename\<close> is optional.
\<close>

record alternative =
  label :: string
  alt_text :: string

datatype jsvalue =
    JUndefined
  | JNull
  | JBoolean bool
  | JNumber int
  | JString string
  | JArray "alternative list"
  | JObject

fun truthy :: "jsvalue \<Rightarrow> bool" where
  "truthy JUndefined = False"
| "truthy JNull = False"
| "truthy (JBoolean b) = b"
| "truthy (JNumber n) = (n \<noteq> 0)"
| "truthy (JString s) = (s \<noteq> [])"
| "truthy (JArray xs) = True"
| "truthy JObject = True"

fun isArray :: "jsvalue \<Rightarrow> bool" where
  "isArray (JArray xs) = True"
| "isArray v = False"

record question =
  number :: string
  question_text :: string
  alternatives :: jsvalue
  pdf_filename :: "string option"
  correct_answer :: string

text \<open>\<^verbatim>\<open>q.pdf_filename || fallback\<close>: a missing or empty name gives the fallback.\<close>

definition or_else :: "string option \<Rightarrow> string \<Rightarrow> string" where
  "or_else v fallback = (case v of None \<Rightarrow> fallback | Some s \<Rightarrow> if s = [] then fallback else s)"

text \<open>\<^verbatim>\<open>String.prototype.toUpperCase\<close>, on the ASCII letters that labels are made of.\<close>

definition upper_char :: "char \<Rightarrow> char" where
  "upper_char c =
     (let n = of_char c :: nat in if 97 \<le> n \<and> n \<le> 122 then char_of (n - 32) else c)"

definition toUpperCase :: "string \<Rightarrow> string" where
  "toUpperCase s = map upper_char s"

text \<open>\<^verbatim>\<open>array[i]\<close> is \<^verbatim>\<open>undefined\<close> out of range.\<close>

definition at_index :: "'a list \<Rightarrow> nat \<Rightarrow> 'a option" where
  "at_index xs i = (if i < length xs then Some (xs ! i) else None)"

subsection \<open>getRandomQuestions and shuffleAlternatives\<close>

text \<open>
  \<^verbatim>\<open>
  const getRandomQuestions = (questions, count) => {
    const shuffled = shuffleArray([...questions]);
    return shuffled.slice(0, count);
  };
  const shuffleAlternatives = (question: Question | null): Question | null => {
    if (!question) return null;
    if (!question.alternatives || !Array.isArray(question.alternatives)) {
      console.warn(...);
      return question; // Return original question if alternatives are malformed
    }
    const shuffledAlts = shuffleArray([...question.alternatives]);
    return { ...question, alternatives: shuffledAlts };
  };
  \<close>
\<close>

definition getRandomQuestions :: "question list \<Rightarrow> nat \<Rightarrow> rng \<Rightarrow> question list \<times> rng" where
  "getRandomQuestions questions cnt r =
     (let (shuffled, r') = shuffleArray questions r in (take cnt shuffled, r'))"

definition shuffleAlternatives :: "question option \<Rightarrow> rng \<Rightarrow> question option \<times> rng" where
  "shuffleAlternatives question r =
     (case question of
        None \<Rightarrow> (None, r)
      | Some q \<Rightarrow>
          if \<not> truthy (alternatives q) \<or> \<not> isArray (alternatives q) then (Some q, r)
          else (case alternatives q of
                  JArray alts \<Rightarrow>
                    (let (shuffledAlts, r') = shuffleArray alts r
                     in (Some (q\<lparr>alternatives := JArray shuffledAlts\<rparr>), r'))
                | _ \<Rightarrow> (Some q, r)))"

subsection \<open>The state of a page\<close>

text \<open>
  The \<^verbatim>\<open>useState\<close> cells of the page component, as one record, with the random
  source beside them. \<open>showSessionSelector\<close> is \<^verbatim>\<open>showQuizSetup\<close> in the notes quiz.
  The cells of the analytics (round id, user id, question start time) are written by the
  handlers and read only to build the logged event; they are left out. A pending
  \<^verbatim>\<open>setTimeout\<close> is the argument its callback will pass to \<^verbatim>\<open>loadNextQuestion\<close>.
\<close>

datatype answer_status = Correct | Incorrect | Skipped

datatype timeout = Timeout bool

record quiz =
  allQuestions :: "question list"
  activeQuestions :: "question list"
  currentQuestionIndex :: nat
  currentQuestion :: "question option"
  streak :: nat
  answerStatus :: "answer_status option"
  selectedAlternativeLabel :: "string option"
  showSessionSelector :: bool
  incorrectlyAnsweredQuestions :: "question list"
  questionToReview :: "question option"
  numQuestions :: nat
  answerHistory :: "string \<rightharpoonup> string \<times> bool"
  feedbackTimeoutId :: "timeout option"
  random :: rng

subsection \<open>startNewQuizRound, main page\<close>

text \<open>
  \<^verbatim>\<open>
  if (session === "all") {
    questionsForRound = getRandomQuestions(allQuestions, numQuestions);
  } else {
    const sessionQuestions = allQuestions.filter((q) => q.pdf_filename === session);
    questionsForRound = getRandomQuestions(sessionQuestions, numQuestions);
  }
  if (questionsForRound.length === 0 && allQuestions.length > 0 && numQuestions > 0) {
    questionsForRound = getRandomQuestions(allQuestions, Math.min(numQuestions, 5));
  }
  setActiveQuestions(questionsForRound);
  setCurrentQuestionIndex(0);
  if (questionsForRound.length > 0) {
    setCurrentQuestion(questionsForRound[0]);  setShowSessionSelector(false);
  } else {
    setCurrentQuestion(null);  setShowSessionSelector(true);
  }
  setStreak(0); setAnswerStatus(null); setSelectedAlternativeLabel(null);
  setIncorrectlyAnsweredQuestions([]); setQuestionToReview(null); setAnswerHistory({});
  if (feedbackTimeoutId) { clearTimeout(feedbackTimeoutId); setFeedbackTimeoutId(null); }
  \<close>
  \<open>numQuestions\<close> comes from a slider (\<^verbatim>\<open>parseInt\<close> of a range input), a natural number.
\<close>

definition sessionQuestions :: "string \<Rightarrow> question list \<Rightarrow> question list" where
  "sessionQuestions session qs = filter (\<lambda>q. pdf_filename q = Some session) qs"

definition sampleForRound :: "string \<Rightarrow> quiz \<Rightarrow> question list \<times> rng" where
  "sampleForRound session s =
     (if session = ''all'' then getRandomQuestions (allQuestions s) (numQuestions s) (random s)
      else getRandomQuestions (sessionQuestions session (allQuestions s)) (numQuestions s) (random s))"

definition fallbackNeeded :: "question list \<Rightarrow> quiz \<Rightarrow> bool" where
  "fallbackNeeded questionsForRound s =
     (length questionsForRound = 0 \<and> length (allQuestions s) > 0 \<and> numQuestions s > 0)"

definition questionsForRound :: "string \<Rightarrow> quiz \<Rightarrow> question list \<times> rng" where
  "questionsForRound session s =
     (let (sampled, r) = sampleForRound session s
      in if fallbackNeeded sampled s
         then getRandomQuestions (allQuestions s) (min (numQuestions s) 5) r
         else (sampled, r))"

definition resetRound :: "quiz \<Rightarrow> quiz" where
  "resetRound s =
     s\<lparr>streak := 0, answerStatus := None, selectedAlternativeLabel := None,
       incorrectlyAnsweredQuestions := [], questionToReview := None,
       answerHistory := Map.empty, feedbackTimeoutId := None\<rparr>"

definition startNewQuizRound :: "string \<Rightarrow> quiz \<Rightarrow> quiz" where
  "startNewQuizRound session s =
     (let (qs, r) = questionsForRound session s
      in resetRound
           (s\<lparr>activeQuestions := qs, currentQuestionIndex := 0,
              currentQuestion := (if length qs > 0 then at_index qs 0 else None),
              showSessionSelector := \<not> (length qs > 0),
              random := r\<rparr>))"

subsection \<open>startNewQuizRound, notes quiz\<close>

text \<open>
  The notes quiz shuffles with \<^verbatim>\<open>[...xs].sort(() => 0.5 - Math.random())\<close>. What
  \<^verbatim>\<open>Array.prototype.sort\<close> returns under a comparator that answers at random is left
  to the JavaScript engine; the engine's sort is the parameter \<open>sortRandomly\<close>, which
  reads the random source and returns the rearranged copy. All the language promises of
  it is \<open>rearranges\<close>: the copy holds the elements of the array, each as often.
\<close>

type_synonym random_sort = "question list \<Rightarrow> rng \<Rightarrow> question list \<times> rng"

definition rearranges :: "random_sort \<Rightarrow> bool" where
  "rearranges sortRandomly = (\<forall>xs r. mset (fst (sortRandomly xs r)) = mset xs)"

text \<open>
  \<^verbatim>\<open>
  const getSampledQuestions = (allQuestions, questionsPerSession = 3) => {
    const questionsBySession: Record<string, Question[]> = {};
    allQuestions.forEach((q) => {
      const key = q.pdf_filename || "notes_quiz";
      if (!questionsBySession[key]) { questionsBySession[key] = []; }
      questionsBySession[key].push(q);
    });
    let sampledQuestions: Question[] = [];
    Object.values(questionsBySession).forEach((sessionQuestions) => {
      const shuffled = [...sessionQuestions].sort(() => 0.5 - Math.random());
      sampledQuestions.push(...shuffled.slice(0, questionsPerSession));
    });
    return sampledQuestions.sort(() => 0.5 - Math.random());
  };
  \<close>
  The record \<^verbatim>\<open>questionsBySession\<close> is an association list in the order the keys were
  first written, the order in which \<^verbatim>\<open>Object.values\<close> lists string keys. The keys
  are file names: none is taken to be an array index such as \<^verbatim>\<open>"12"\<close> (which
  JavaScript would list first) or the name of a member of \<^verbatim>\<open>Object.prototype\<close>.
\<close>

definition sourceKey :: "question \<Rightarrow> string" where
  "sourceKey q = or_else (pdf_filename q) ''notes_quiz''"

definition pushQuestion ::
  "(string \<times> question list) list \<Rightarrow> question \<Rightarrow> (string \<times> question list) list" where
  "pushQuestion questionsBySession q =
     (let key = sourceKey q
      in case map_of questionsBySession key of
           None \<Rightarrow> questionsBySession @ [(key, [q])]
         | Some qs \<Rightarrow> map (\<lambda>(k, v). if k = key then (k, v @ [q]) else (k, v)) questionsBySession)"

definition sampleSession ::
  "random_sort \<Rightarrow> nat \<Rightarrow> question list \<times> rng \<Rightarrow> question list \<Rightarrow> question list \<times> rng" where
  "sampleSession sortRandomly questionsPerSession acc sessionQs =
     (let (sampledQuestions, r) = acc;
          (shuffled, r') = sortRandomly sessionQs r
      in (sampledQuestions @ take questionsPerSession shuffled, r'))"

definition getSampledQuestions ::
  "random_sort \<Rightarrow> question list \<Rightarrow> nat \<Rightarrow> rng \<Rightarrow> question list \<times> rng" where
  "getSampledQuestions sortRandomly allQs questionsPerSession r =
     (let questionsBySession = foldl pushQuestion [] allQs;
          (sampledQuestions, r') =
             foldl (sampleSession sortRandomly questionsPerSession) ([], r)
               (map snd questionsBySession)
      in sortRandomly sampledQuestions r')"

text \<open>
  \<^verbatim>\<open>
  if (!allQuestions || allQuestions.length === 0) {
    setActiveQuestions([]); setCurrentQuestion(null); setShowQuizSetup(true);
    return;
  }
  if (session === "all") {
    const sourceKeys = new Set(allQuestions.map((q) => q.pdf_filename || "notes_quiz"));
    const numUniqueSources = sourceKeys.size > 0 ? sourceKeys.size : 1;
    const questionsToSamplePerSource = Math.ceil(numQuestions / numUniqueSources);
    const preliminaryQuestions = getSampledQuestions(allQuestions, questionsToSamplePerSource);
    questionsForRound = preliminaryQuestions.slice(0, numQuestions);
  } else {
    const sessionQuestions = allQuestions.filter(
      (q) => (q.pdf_filename || "Unknown Source") === session);
    questionsForRound = [...sessionQuestions].sort(() => 0.5 - Math.random())
      .slice(0, numQuestions);
  }
  if (questionsForRound.length === 0 && allQuestions.length > 0 && numQuestions > 0) {
    questionsForRound = [...allQuestions].sort(() => 0.5 - Math.random())
      .slice(0, Math.min(numQuestions, Math.min(5, allQuestions.length)));
  }
  ... setCurrentQuestion(shuffleAlternatives(questionsForRound[0])); ...
  \<close>
  \<^verbatim>\<open>Math.ceil(a / b)\<close> on two natural numbers, \<open>b\<close> positive, is \<open>(a + b - 1) div b\<close>
  (\<open>ceil_div_ceiling\<close> below compares it with the ceiling of the quotient of reals).
  \<^verbatim>\<open>new Set(...).size\<close> is the number of distinct keys.
\<close>

definition ceil_div :: "nat \<Rightarrow> nat \<Rightarrow> nat" where
  "ceil_div a b = (a + b - 1) div b"

definition sessionQuestions_notes :: "string \<Rightarrow> question list \<Rightarrow> question list" where
  "sessionQuestions_notes session qs =
     filter (\<lambda>q. or_else (pdf_filename q) ''Unknown Source'' = session) qs"

definition sampleForRound_notes :: "random_sort \<Rightarrow> string \<Rightarrow> quiz \<Rightarrow> question list \<times> rng" where
  "sampleForRound_notes sortRandomly session s =
     (if session = ''all'' then
        (let sourceKeys = remdups (map sourceKey (allQuestions s));
             numUniqueSources = (if length sourceKeys > 0 then length sourceKeys else 1);
             questionsToSamplePerSource = ceil_div (numQuestions s) numUniqueSources;
             (preliminaryQuestions, r) =
                getSampledQuestions sortRandomly (allQuestions s) questionsToSamplePerSource
                  (random s)
         in (take (numQuestions s) preliminaryQuestions, r))
      else
        (let (shuffled, r) =
                sortRandomly (sessionQuestions_notes session (allQuestions s)) (random s)
         in (take (numQuestions s) shuffled, r)))"

definition questionsForRound_notes :: "random_sort \<Rightarrow> string \<Rightarrow> quiz \<Rightarrow> question list \<times> rng" where
  "questionsForRound_notes sortRandomly session s =
     (let (sampled, r) = sampleForRound_notes sortRandomly session s
      in if fallbackNeeded sampled s
         then (let (shuffled, r') = sortRandomly (allQuestions s) r
               in (take (min (numQuestions s) (min 5 (length (allQuestions s)))) shuffled, r'))
         else (sampled, r))"

definition startNewQuizRound_notes :: "random_sort \<Rightarrow> string \<Rightarrow> quiz \<Rightarrow> quiz" where
  "startNewQuizRound_notes sortRandomly session s =
     (if length (allQuestions s) = 0
      then s\<lparr>activeQuestions := [], currentQuestion := None, showSessionSelector := True\<rparr>
      else
        (let (qs, r) = questionsForRound_notes sortRandomly session s;
             (shown, r') = (if length qs > 0 then shuffleAlternatives (at_index qs 0) r
                            else (None, r))
         in resetRound
              (s\<lparr>activeQuestions := qs, currentQuestionIndex := 0,
                 currentQuestion := shown,
                 showSessionSelector := \<not> (length qs > 0),
                 random := r'\<rparr>)))"

subsection \<open>The handlers\<close>

text \<open>
  \<^verbatim>\<open>
  const clearFeedbackAndTimeout = () => {
    if (feedbackTimeoutId) { clearTimeout(feedbackTimeoutId); setFeedbackTimeoutId(null); }
    setAnswerStatus(null);
    setSelectedAlternativeLabel(null);
  };
  const loadNextQuestion = (skipped = false) => {
    clearFeedbackAndTimeout();
    if (activeQuestions.length > 0 && currentQuestionIndex < activeQuestions.length - 1) {
      const nextIndex = currentQuestionIndex + 1;
      setCurrentQuestionIndex(nextIndex);
      setCurrentQuestion(activeQuestions[nextIndex]);   // notes quiz: shuffleAlternatives(...)
      if (skipped) setAnswerStatus(null);
    } else {
      setCurrentQuestion(null); // End of quiz
    }
  };
  \<close>
\<close>

definition clearFeedbackAndTimeout :: "quiz \<Rightarrow> quiz" where
  "clearFeedbackAndTimeout s =
     s\<lparr>feedbackTimeoutId := None, answerStatus := None, selectedAlternativeLabel := None\<rparr>"

definition hasNext :: "quiz \<Rightarrow> bool" where
  "hasNext s =
     (length (activeQuestions s) > 0 \<and>
      int (currentQuestionIndex s) < int (length (activeQuestions s)) - 1)"

definition loadNextQuestion :: "bool \<Rightarrow> quiz \<Rightarrow> quiz" where
  "loadNextQuestion skipped s =
     (let s1 = clearFeedbackAndTimeout s
      in if hasNext s then
           (let nextIndex = currentQuestionIndex s + 1;
                s2 = s1\<lparr>currentQuestionIndex := nextIndex,
                        currentQuestion := at_index (activeQuestions s) nextIndex\<rparr>
            in if skipped then s2\<lparr>answerStatus := None\<rparr> else s2)
         else s1\<lparr>currentQuestion := None\<rparr>)"

definition loadNextQuestion_notes :: "bool \<Rightarrow> quiz \<Rightarrow> quiz" where
  "loadNextQuestion_notes skipped s =
     (let s1 = clearFeedbackAndTimeout s
      in if hasNext s then
           (let nextIndex = currentQuestionIndex s + 1;
                (shown, r) = shuffleAlternatives (at_index (activeQuestions s) nextIndex) (random s);
                s2 = s1\<lparr>currentQuestionIndex := nextIndex, currentQuestion := shown,
                        random := r\<rparr>
            in if skipped then s2\<lparr>answerStatus := None\<rparr> else s2)
         else s1\<lparr>currentQuestion := None\<rparr>)"

text \<open>
  \<^verbatim>\<open>
  const handleAnswer = (alternative: Alternative) => {
    if (!currentQuestion || answerStatus) return;
    if (feedbackTimeoutId) clearTimeout(feedbackTimeoutId);
    const isCorrect =
      alternative.label.toUpperCase() === currentQuestion.correct_answer.toUpperCase();
    setSelectedAlternativeLabel(alternative.label);
    if (isCorrect) { setStreak(streak + 1); setAnswerStatus("correct"); }
    else {
      setStreak(0); setAnswerStatus("incorrect");
      setIncorrectlyAnsweredQuestions((prev) => {
        if (!prev.find((q) => q.number === currentQuestion.number)) {
          return [...prev, currentQuestion];
        }
        return prev;
      });
    }
    setAnswerHistory((prev) => ({ ...prev,
      [currentQuestion.number]: { selectedAlternativeLabel: alternative.label, isCorrect } }));
    const newTimeoutId = setTimeout(() => { loadNextQuestion(); setFeedbackTimeoutId(null); }, 750);
    setFeedbackTimeoutId(newTimeoutId);
  };
  const handleSkip = () => {
    if (!currentQuestion || answerStatus) return;
    clearFeedbackAndTimeout();
    setAnswerStatus("skipped");
    const newTimeoutId = setTimeout(() => { loadNextQuestion(true); setFeedbackTimeoutId(null); }, 500);
    setFeedbackTimeoutId(newTimeoutId);
  };
  const handleGoBack = () => {
    if (currentQuestionIndex > 0) {
      clearFeedbackAndTimeout();
      const prevIndex = currentQuestionIndex - 1;
      setCurrentQuestionIndex(prevIndex);
      setCurrentQuestion(activeQuestions[prevIndex]);   // notes quiz: shuffleAlternatives(...)
    }
  };
  \<close>
  The two pages share \<^verbatim>\<open>handleAnswer\<close> and \<^verbatim>\<open>handleSkip\<close> (the delays differ).
\<close>

definition recordMistake :: "question \<Rightarrow> question list \<Rightarrow> question list" where
  "recordMistake q prev =
     (if find (\<lambda>q'. number q' = number q) prev = None then prev @ [q] else prev)"

definition handleAnswer :: "alternative \<Rightarrow> quiz \<Rightarrow> quiz" where
  "handleAnswer alt s =
     (case currentQuestion s of
        None \<Rightarrow> s
      | Some q \<Rightarrow>
          if answerStatus s \<noteq> None then s
          else
            (let isCorrect = (toUpperCase (label alt) = toUpperCase (correct_answer q));
                 s1 = s\<lparr>selectedAlternativeLabel := Some (label alt)\<rparr>;
                 s2 = (if isCorrect
                       then s1\<lparr>streak := streak s + 1, answerStatus := Some Correct\<rparr>
                       else s1\<lparr>streak := 0, answerStatus := Some Incorrect,
                               incorrectlyAnsweredQuestions :=
                                 recordMistake q (incorrectlyAnsweredQuestions s)\<rparr>)
             in s2\<lparr>answerHistory := (answerHistory s)(number q \<mapsto> (label alt, isCorrect)),
                   feedbackTimeoutId := Some (Timeout False)\<rparr>))"

definition handleSkip :: "quiz \<Rightarrow> quiz" where
  "handleSkip s =
     (if currentQuestion s = None \<or> answerStatus s \<noteq> None then s
      else (clearFeedbackAndTimeout s)
             \<lparr>answerStatus := Some Skipped, feedbackTimeoutId := Some (Timeout True)\<rparr>)"

definition handleGoBack :: "quiz \<Rightarrow> quiz" where
  "handleGoBack s =
     (if currentQuestionIndex s > 0 then
        (let prevIndex = currentQuestionIndex s - 1
         in (clearFeedbackAndTimeout s)
              \<lparr>currentQuestionIndex := prevIndex,
                currentQuestion := at_index (activeQuestions s) prevIndex\<rparr>)
      else s)"

definition handleGoBack_notes :: "quiz \<Rightarrow> quiz" where
  "handleGoBack_notes s =
     (if currentQuestionIndex s > 0 then
        (let prevIndex = currentQuestionIndex s - 1;
             (shown, r) = shuffleAlternatives (at_index (activeQuestions s) prevIndex) (random s)
         in (clearFeedbackAndTimeout s)
              \<lparr>currentQuestionIndex := prevIndex, currentQuestion := shown, random := r\<rparr>)
      else s)"

text \<open>
  The Back button of both pages:
  \<^verbatim>\<open><button onClick={handleGoBack} disabled={currentQuestionIndex === 0 || !!answerStatus}>\<close>.
  A click on a disabled button calls nothing.
\<close>

definition backDisabled :: "quiz \<Rightarrow> bool" where
  "backDisabled s = (currentQuestionIndex s = 0 \<or> answerStatus s \<noteq> None)"

definition goBack :: "quiz \<Rightarrow> quiz" where
  "goBack s = (if backDisabled s then s else handleGoBack s)"

definition goBack_notes :: "quiz \<Rightarrow> quiz" where
  "goBack_notes s = (if backDisabled s then s else handleGoBack_notes s)"

subsection \<open>Runs of a round\<close>

text \<open>
  What can happen to a round after it has started: the handlers, called in any order
  (the buttons only ever call them in fewer states), and \<^verbatim>\<open>loadNextQuestion\<close>, which
  the timers call.
\<close>

datatype event = Answer alternative | Skip | Advance bool | Back

fun step :: "quiz \<Rightarrow> event \<Rightarrow> quiz" where
  "step s (Answer alt) = handleAnswer alt s"
| "step s Skip = handleSkip s"
| "step s (Advance skipped) = loadNextQuestion skipped s"
| "step s Back = handleGoBack s"

fun step_notes :: "quiz \<Rightarrow> event \<Rightarrow> quiz" where
  "step_notes s (Answer alt) = handleAnswer alt s"
| "step_notes s Skip = handleSkip s"
| "step_notes s (Advance skipped) = loadNextQuestion_notes skipped s"
| "step_notes s Back = handleGoBack_notes s"

definition run :: "event list \<Rightarrow> quiz \<Rightarrow> quiz" where
  "run evs s = foldl step s evs"

definition run_notes :: "event list \<Rightarrow> quiz \<Rightarrow> quiz" where
  "run_notes evs s = foldl step_notes s evs"

subsection \<open>States of a round\<close>

text \<open>
  \<open>presents shown q\<close>: \<open>shown\<close> is the question \<open>q\<close> with its alternatives possibly in
  another order. A round is complete when it has started and no question is shown.
  \<open>round_inv\<close> is what holds of the cells from the start of a round on.
\<close>

definition same_choices :: "jsvalue \<Rightarrow> jsvalue \<Rightarrow> bool" where
  "same_choices v w =
     (case v of
        JArray xs \<Rightarrow> (case w of JArray ys \<Rightarrow> mset xs = mset ys | _ \<Rightarrow> False)
      | _ \<Rightarrow> v = w)"

definition presents :: "question \<Rightarrow> question \<Rightarrow> bool" where
  "presents shown q =
     (shown\<lparr>alternatives := alternatives q\<rparr> = q \<and>
      same_choices (alternatives q) (alternatives shown))"

definition choices :: "question \<Rightarrow> alternative set" where
  "choices q = (case alternatives q of JArray xs \<Rightarrow> set xs | _ \<Rightarrow> {})"

definition roundComplete :: "quiz \<Rightarrow> bool" where
  "roundComplete s = (\<not> showSessionSelector s \<and> currentQuestion s = None)"

definition round_inv :: "quiz \<Rightarrow> bool" where
  "round_inv s =
     (showSessionSelector s \<or>
      (currentQuestionIndex s < length (activeQuestions s) \<and>
       (case currentQuestion s of
          None \<Rightarrow>
            answerStatus s = None \<and> selectedAlternativeLabel s = None \<and>
            feedbackTimeoutId s = None \<and>
            currentQuestionIndex s = length (activeQuestions s) - 1
        | Some q \<Rightarrow> presents q (activeQuestions s ! currentQuestionIndex s))))"

subsection \<open>Stratified sampling, as the specification words it\<close>

text \<open>
  The specification's description of a round over all topics: partition the pool by topic,
  let \<open>perGroup = ceil(size / numGroups)\<close>, take up to \<open>perGroup\<close> questions from each
  group after shuffling it, concatenate the samples, shuffle the concatenation, truncate
  to \<open>size\<close>. \<open>uniq\<close> lists the topics in the order of their first question;
  \<open>bySession\<close> is the same partition with its keys. The topic of a question is its
  \<open>sourceKey\<close>.
\<close>

definition uniq :: "'a list \<Rightarrow> 'a list" where
  "uniq xs = rev (remdups (rev xs))"

definition partitionByTopic :: "question list \<Rightarrow> question list list" where
  "partitionByTopic pool =
     map (\<lambda>t. filter (\<lambda>q. sourceKey q = t) pool) (uniq (map sourceKey pool))"

fun sampleEach ::
  "random_sort \<Rightarrow> nat \<Rightarrow> question list list \<Rightarrow> rng \<Rightarrow> question list list \<times> rng" where
  "sampleEach shuffle perGroup [] r = ([], r)"
| "sampleEach shuffle perGroup (g # gs) r =
     (let (shuffled, r1) = shuffle g r;
          (rest, r2) = sampleEach shuffle perGroup gs r1
      in (take perGroup shuffled # rest, r2))"

definition spec_stratifiedRound ::
  "random_sort \<Rightarrow> question list \<Rightarrow> nat \<Rightarrow> rng \<Rightarrow> question list \<times> rng" where
  "spec_stratifiedRound shuffle pool sz r =
     (let groups = partitionByTopic pool;
          perGroup = ceil_div sz (length groups);
          (samples, r1) = sampleEach shuffle perGroup groups r;
          (shuffled, r2) = shuffle (concat samples) r1
      in (take sz shuffled, r2))"

definition bySession :: "question list \<Rightarrow> (string \<times> question list) list" where
  "bySession qs =
     map (\<lambda>t. (t, filter (\<lambda>q. sourceKey q = t) qs)) (uniq (map sourceKey qs))"

definition fromSource :: "string \<Rightarrow> question list \<Rightarrow> question list" where
  "fromSource k qs = filter (\<lambda>q. sourceKey q = k) qs"

text \<open>
  The pool a round draws from, before the fallback: every question under \<^verbatim>\<open>"all"\<close>,
  the questions of the session otherwise.
\<close>

definition roundPool :: "string \<Rightarrow> quiz \<Rightarrow> question list" where
  "roundPool session s =
     (if session = ''all'' then allQuestions s else sessionQuestions session (allQuestions s))"

definition roundPool_notes :: "string \<Rightarrow> quiz \<Rightarrow> question list" where
  "roundPool_notes session s =
     (if session = ''all'' then allQuestions s
      else sessionQuestions_notes session (allQuestions s))"

subsection \<open>Example data\<close>

text \<open>
  Three questions (the third has no alternatives), the cells as \<^verbatim>\<open>useState\<close>
  initialises them once the questions are loaded, and a state in the middle of a round.
\<close>

definition altA :: alternative where "altA = \<lparr>label = ''a'', alt_text = ''Price''\<rparr>"
definition altB :: alternative where "altB = \<lparr>label = ''b'', alt_text = ''Place''\<rparr>"

definition q1 :: question where
  "q1 = \<lparr>number = ''1'', question_text = ''Which P is about cost?'',
          alternatives = JArray [altA, altB], pdf_filename = Some ''s1.pdf'',
          correct_answer = ''A''\<rparr>"

definition q2 :: question where
  "q2 = \<lparr>number = ''2'', question_text = ''Which P is about channels?'',
          alternatives = JArray [altA, altB], pdf_filename = Some ''s1.pdf'',
          correct_answer = ''b''\<rparr>"

definition q3 :: question where
  "q3 = \<lparr>number = ''3'', question_text = ''Segmentation splits what?'',
          alternatives = JUndefined, pdf_filename = Some ''s2.pdf'',
          correct_answer = ''a''\<rparr>"

definition initial :: "question list \<Rightarrow> nat \<Rightarrow> rng \<Rightarrow> quiz" where
  "initial pool n r =
     \<lparr>allQuestions = pool, activeQuestions = [], currentQuestionIndex = 0,
      currentQuestion = None, streak = 0, answerStatus = None,
      selectedAlternativeLabel = None, showSessionSelector = True,
      incorrectlyAnsweredQuestions = [], questionToReview = None, numQuestions = n,
      answerHistory = Map.empty, feedbackTimeoutId = None, random = r\<rparr>"

definition midRound :: quiz where
  "midRound = (initial [q1, q2, q3] 10 (\<lambda>k. 0))
     \<lparr>activeQuestions := [q1, q2, q3], currentQuestionIndex := 1, currentQuestion := Some q2,
      streak := 2, showSessionSelector := False\<rparr>"

text \<open>An engine whose sort, under the random comparator, happens to reverse the array.\<close>

definition reverseSort :: random_sort where
  "reverseSort xs r = (rev xs, r)"

definition oneQuestionRound :: quiz where
  "oneQuestionRound =
     run [Answer altA, Advance False] (startNewQuizRound ''all'' (initial [q1] 10 (\<lambda>k. 0)))"

subsection \<open>Facts about shuffleArray\<close>

lemma random_below_less: "0 < n \<Longrightarrow> fst (random_below n r) < n"
  by (simp add: random_below_def)

lemma mset_swap_list: "i < length xs \<Longrightarrow> j < length xs \<Longrightarrow> mset (swap i j xs) = mset xs"
  unfolding swap_def by (simp add: mset_swap)

lemma length_swap [simp]: "length (swap i j xs) = length xs"
  by (simp add: swap_def)

lemma shuffle_loop_mset:
  "k < length xs \<Longrightarrow> mset (fst (shuffle_loop k xs r)) = mset xs"
proof (induction k arbitrary: xs r)
  case 0
  then show ?case by simp
next
  case (Suc k)
  obtain j r' where d: "random_below (Suc k + 1) r = (j, r')"
    by (cases "random_below (Suc k + 1) r")
  have "j < Suc k + 1"
    using random_below_less [of "Suc k + 1" r] d by simp
  with Suc.prems have j: "j < length xs" by simp
  have "mset (fst (shuffle_loop k (swap (Suc k) j xs) r')) = mset (swap (Suc k) j xs)"
    using Suc.prems by (intro Suc.IH) simp
  also have "\<dots> = mset xs"
    using Suc.prems j by (simp add: mset_swap_list)
  finally show ?case using d by simp
qed

lemma shuffleArray_mset [simp]: "mset (fst (shuffleArray xs r)) = mset xs"
proof (cases xs)
  case Nil
  then show ?thesis by (simp add: shuffleArray_def)
next
  case (Cons a as)
  then show ?thesis by (simp add: shuffleArray_def shuffle_loop_mset)
qed

lemma shuffleArray_length [simp]: "length (fst (shuffleArray xs r)) = length xs"
  using shuffleArray_mset [of xs r] by (metis size_mset)

lemma shuffleArray_set [simp]: "set (fst (shuffleArray xs r)) = set xs"
  using shuffleArray_mset [of xs r] by (metis set_mset_mset)

lemma shuffle_loop_st_pure:
  "b < length st \<Longrightarrow>
   shuffle_loop_st k b st r =
     (st[b := fst (shuffle_loop k (st ! b) r)], snd (shuffle_loop k (st ! b) r))"
proof (induction k arbitrary: st r)
  case 0
  then show ?case by simp
next
  case (Suc k)
  obtain j r' where d: "random_below (Suc k + 1) r = (j, r')"
    by (cases "random_below (Suc k + 1) r")
  let ?st = "st[b := swap (Suc k) j (st ! b)]"
  have "shuffle_loop_st k b ?st r' =
        (?st[b := fst (shuffle_loop k (?st ! b) r')], snd (shuffle_loop k (?st ! b) r'))"
    using Suc.prems by (intro Suc.IH) simp
  then show ?case using d Suc.prems by simp
qed

lemma shuffleArray_st_pure:
  "a < length st \<Longrightarrow>
   shuffleArray_st a st r =
     (length st, st @ [fst (shuffleArray (st ! a) r)], snd (shuffleArray (st ! a) r))"
  by (simp add: shuffleArray_st_def alloc_def shuffle_loop_st_pure shuffleArray_def
      nth_append list_update_append)

subsection \<open>Facts about the handlers\<close>

lemma same_choices_refl [simp]: "same_choices v v"
  by (cases v) (simp_all add: same_choices_def)

lemma presents_refl [simp]: "presents q q"
  by (simp add: presents_def)

lemma shuffleAlternatives_None [simp]: "shuffleAlternatives None r = (None, r)"
  by (simp add: shuffleAlternatives_def)

lemma shuffleArray_eqD: "shuffleArray xs r = (ys, r') \<Longrightarrow> mset ys = mset xs"
  using shuffleArray_mset [of xs r] by simp

lemma shuffleAlternatives_Some:
  "\<exists>shown. fst (shuffleAlternatives (Some q) r) = Some shown \<and> presents shown q"
  by (cases "alternatives q")
     (auto simp: shuffleAlternatives_def presents_def same_choices_def split: prod.splits
           dest: shuffleArray_eqD)

lemma shuffleAlternatives_at_index:
  "i < length qs \<Longrightarrow>
   \<exists>shown. fst (shuffleAlternatives (at_index qs i) r) = Some shown \<and> presents shown (qs ! i)"
  by (simp add: at_index_def shuffleAlternatives_Some)


lemma at_index_simps [simp]:
  "i < length xs \<Longrightarrow> at_index xs i = Some (xs ! i)"
  "\<not> i < length xs \<Longrightarrow> at_index xs i = None"
  by (simp_all add: at_index_def)

lemma handleAnswer_noop:
  "currentQuestion s = None \<or> answerStatus s \<noteq> None \<Longrightarrow> handleAnswer alt s = s"
  by (auto simp: handleAnswer_def split: option.splits)

lemma handleSkip_noop:
  "currentQuestion s = None \<or> answerStatus s \<noteq> None \<Longrightarrow> handleSkip s = s"
  by (auto simp: handleSkip_def)

lemma handleGoBack_noop: "currentQuestionIndex s = 0 \<Longrightarrow> handleGoBack s = s"
  by (simp add: handleGoBack_def)

lemma handleGoBack_notes_noop: "currentQuestionIndex s = 0 \<Longrightarrow> handleGoBack_notes s = s"
  by (simp add: handleGoBack_notes_def)

lemma hasNext_iff:
  "hasNext s \<longleftrightarrow> Suc (currentQuestionIndex s) < length (activeQuestions s)"
  by (auto simp: hasNext_def)

lemma complete_cells:
  assumes "round_inv s" and "roundComplete s"
  shows "\<not> hasNext s"
    and "(clearFeedbackAndTimeout s)\<lparr>currentQuestion := None\<rparr> = s"
proof -
  from assms have c: "currentQuestion s = None" "answerStatus s = None"
    "selectedAlternativeLabel s = None" "feedbackTimeoutId s = None"
    and i: "currentQuestionIndex s < length (activeQuestions s)"
      "currentQuestionIndex s = length (activeQuestions s) - 1"
    by (auto simp: round_inv_def roundComplete_def)
  from i show "\<not> hasNext s" by (simp add: hasNext_iff)
  from c show "(clearFeedbackAndTimeout s)\<lparr>currentQuestion := None\<rparr> = s"
    by (cases s) (simp add: clearFeedbackAndTimeout_def)
qed

lemma loadNextQuestion_complete:
  "round_inv s \<Longrightarrow> roundComplete s \<Longrightarrow> loadNextQuestion b s = s"
  by (simp add: loadNextQuestion_def complete_cells)

lemma loadNextQuestion_notes_complete:
  "round_inv s \<Longrightarrow> roundComplete s \<Longrightarrow> loadNextQuestion_notes b s = s"
  by (simp add: loadNextQuestion_notes_def complete_cells)

lemma round_inv_handleAnswer: "round_inv s \<Longrightarrow> round_inv (handleAnswer alt s)"
  by (auto simp: round_inv_def handleAnswer_def Let_def split: option.splits)

lemma round_inv_handleSkip: "round_inv s \<Longrightarrow> round_inv (handleSkip s)"
  by (auto simp: round_inv_def handleSkip_def clearFeedbackAndTimeout_def split: option.splits)

lemma round_inv_loadNextQuestion: "round_inv s \<Longrightarrow> round_inv (loadNextQuestion b s)"
  by (auto simp: round_inv_def loadNextQuestion_def hasNext_iff clearFeedbackAndTimeout_def
      Let_def split: option.splits)

lemma round_inv_handleGoBack: "round_inv s \<Longrightarrow> round_inv (handleGoBack s)"
  by (auto simp: round_inv_def handleGoBack_def clearFeedbackAndTimeout_def
      Let_def split: option.splits)

lemma round_inv_loadNextQuestion_notes:
  assumes "round_inv s"
  shows "round_inv (loadNextQuestion_notes b s)"
proof (cases "hasNext s")
  case True
  then have lt: "Suc (currentQuestionIndex s) < length (activeQuestions s)"
    by (simp add: hasNext_iff)
  obtain shown where
    "fst (shuffleAlternatives (at_index (activeQuestions s) (Suc (currentQuestionIndex s))) (random s)) = Some shown"
    "presents shown (activeQuestions s ! Suc (currentQuestionIndex s))"
    using shuffleAlternatives_at_index [OF lt] by blast
  with True lt show ?thesis
    by (auto simp: round_inv_def loadNextQuestion_notes_def clearFeedbackAndTimeout_def
        Let_def split: prod.splits)
next
  case False
  with assms show ?thesis
    by (auto simp: round_inv_def loadNextQuestion_notes_def hasNext_iff
        clearFeedbackAndTimeout_def split: option.splits)
qed

lemma round_inv_handleGoBack_notes:
  assumes "round_inv s"
  shows "round_inv (handleGoBack_notes s)"
proof (cases "currentQuestionIndex s > 0 \<and> \<not> showSessionSelector s")
  case True
  with assms have lt: "currentQuestionIndex s - 1 < length (activeQuestions s)"
    by (auto simp: round_inv_def)
  obtain shown where
    "fst (shuffleAlternatives (at_index (activeQuestions s) (currentQuestionIndex s - 1)) (random s)) = Some shown"
    "presents shown (activeQuestions s ! (currentQuestionIndex s - 1))"
    using shuffleAlternatives_at_index [OF lt] by blast
  with True lt show ?thesis
    by (auto simp: round_inv_def handleGoBack_notes_def clearFeedbackAndTimeout_def
        Let_def split: prod.splits)
next
  case False
  with assms show ?thesis
    by (auto simp: round_inv_def handleGoBack_notes_def clearFeedbackAndTimeout_def
        Let_def split: prod.splits)
qed

lemma round_inv_startNewQuizRound: "round_inv (startNewQuizRound session s)"
  by (auto simp: round_inv_def startNewQuizRound_def resetRound_def split: prod.splits)

lemma round_inv_startNewQuizRound_notes:
  "round_inv (startNewQuizRound_notes sortRandomly session s)"
proof (cases "length (allQuestions s) = 0")
  case True
  then show ?thesis by (simp add: round_inv_def startNewQuizRound_notes_def)
next
  case False
  obtain qs r where q: "questionsForRound_notes sortRandomly session s = (qs, r)"
    by (cases "questionsForRound_notes sortRandomly session s")
  show ?thesis
  proof (cases "qs = []")
    case True
    with False q show ?thesis
      by (simp add: round_inv_def startNewQuizRound_notes_def resetRound_def)
  next
    case ne: False
    then have lt: "0 < length qs" by simp
    obtain shown where
      "fst (shuffleAlternatives (at_index qs 0) r) = Some shown" "presents shown (qs ! 0)"
      using shuffleAlternatives_at_index [OF lt] by blast
    with False q ne show ?thesis
      by (auto simp: round_inv_def startNewQuizRound_notes_def resetRound_def split: prod.splits)
  qed
qed

lemma round_inv_run: "round_inv s \<Longrightarrow> round_inv (run evs s)"
  unfolding run_def
proof (induction evs arbitrary: s)
  case Nil
  then show ?case by simp
next
  case (Cons e evs)
  have "round_inv (step s e)"
    using Cons.prems
    by (cases e) (simp_all add: round_inv_handleAnswer round_inv_handleSkip
        round_inv_loadNextQuestion round_inv_handleGoBack)
  then show ?case using Cons.IH by simp
qed

lemma round_inv_run_notes: "round_inv s \<Longrightarrow> round_inv (run_notes evs s)"
  unfolding run_notes_def
proof (induction evs arbitrary: s)
  case Nil
  then show ?case by simp
next
  case (Cons e evs)
  have "round_inv (step_notes s e)"
    using Cons.prems
    by (cases e) (simp_all add: round_inv_handleAnswer round_inv_handleSkip
        round_inv_loadNextQuestion_notes round_inv_handleGoBack_notes)
  then show ?case using Cons.IH by simp
qed

lemma toUpperCase_examples:
  "toUpperCase ''a'' = ''A''" "toUpperCase ''A'' = ''A''"
  "toUpperCase ''b'' = ''B''" "toUpperCase ''B'' = ''B''"
  by code_simp+

lemma presents_choices: "presents shown q \<Longrightarrow> choices shown = choices q"
  by (cases "alternatives q"; cases "alternatives shown")
     (auto simp: presents_def same_choices_def choices_def dest: mset_eq_setD)

lemma goBack_enabled:
  "currentQuestionIndex s > 0 \<Longrightarrow> answerStatus s = None \<Longrightarrow>
   goBack s = handleGoBack s \<and> goBack_notes s = handleGoBack_notes s"
  by (simp add: goBack_def goBack_notes_def backDisabled_def)

lemma recordMistake_distinct:
  "distinct (map number prev) \<Longrightarrow> distinct (map number (recordMistake q prev))"
  by (auto simp: recordMistake_def find_None_iff)

lemma recordMistake_prefix: "prefix prev (recordMistake q prev)"
  by (simp add: recordMistake_def)

lemma recordMistake_eq:
  "recordMistake q prev = (if number q \<in> number ` set prev then prev else prev @ [q])"
proof -
  have "find (\<lambda>q'. number q' = number q) prev = None \<longleftrightarrow> number q \<notin> number ` set prev"
    by (auto simp: find_None_iff intro: rev_image_eqI)
  then show ?thesis by (simp add: recordMistake_def)
qed

lemma mistakes_handleAnswer:
  "incorrectlyAnsweredQuestions (handleAnswer alt s) = incorrectlyAnsweredQuestions s \<or>
   (\<exists>q. currentQuestion s = Some q \<and>
     incorrectlyAnsweredQuestions (handleAnswer alt s) =
       recordMistake q (incorrectlyAnsweredQuestions s))"
  by (auto simp: handleAnswer_def Let_def split: option.splits)

lemma mistakes_others [simp]:
  "incorrectlyAnsweredQuestions (handleSkip s) = incorrectlyAnsweredQuestions s"
  "incorrectlyAnsweredQuestions (loadNextQuestion b s) = incorrectlyAnsweredQuestions s"
  "incorrectlyAnsweredQuestions (loadNextQuestion_notes b s) = incorrectlyAnsweredQuestions s"
  "incorrectlyAnsweredQuestions (handleGoBack s) = incorrectlyAnsweredQuestions s"
  "incorrectlyAnsweredQuestions (handleGoBack_notes s) = incorrectlyAnsweredQuestions s"
  by (simp_all add: handleSkip_def loadNextQuestion_def loadNextQuestion_notes_def
      handleGoBack_def handleGoBack_notes_def clearFeedbackAndTimeout_def Let_def
      split: prod.splits)

lemma mistakes_step:
  "(distinct (map number (incorrectlyAnsweredQuestions s)) \<longrightarrow>
      distinct (map number (incorrectlyAnsweredQuestions (step s e)))) \<and>
   prefix (incorrectlyAnsweredQuestions s) (incorrectlyAnsweredQuestions (step s e))"
proof (cases e)
  case (Answer alt)
  then show ?thesis
    using mistakes_handleAnswer [of alt s]
    by (auto simp: recordMistake_distinct recordMistake_prefix)
qed simp_all

lemma mistakes_step_notes:
  "(distinct (map number (incorrectlyAnsweredQuestions s)) \<longrightarrow>
      distinct (map number (incorrectlyAnsweredQuestions (step_notes s e)))) \<and>
   prefix (incorrectlyAnsweredQuestions s) (incorrectlyAnsweredQuestions (step_notes s e))"
proof (cases e)
  case (Answer alt)
  then show ?thesis
    using mistakes_handleAnswer [of alt s]
    by (auto simp: recordMistake_distinct recordMistake_prefix)
qed simp_all

lemma mistakes_run:
  "(distinct (map number (incorrectlyAnsweredQuestions s)) \<longrightarrow>
      distinct (map number (incorrectlyAnsweredQuestions (run evs s)))) \<and>
   prefix (incorrectlyAnsweredQuestions s) (incorrectlyAnsweredQuestions (run evs s))"
  unfolding run_def
proof (induction evs arbitrary: s)
  case Nil
  then show ?case by simp
next
  case (Cons e evs)
  show ?case
    using mistakes_step [of s e] Cons.IH [of "step s e"]
    by (auto intro: prefix_order.trans)
qed

lemma mistakes_run_notes:
  "(distinct (map number (incorrectlyAnsweredQuestions s)) \<longrightarrow>
      distinct (map number (incorrectlyAnsweredQuestions (run_notes evs s)))) \<and>
   prefix (incorrectlyAnsweredQuestions s) (incorrectlyAnsweredQuestions (run_notes evs s))"
  unfolding run_notes_def
proof (induction evs arbitrary: s)
  case Nil
  then show ?case by simp
next
  case (Cons e evs)
  show ?case
    using mistakes_step_notes [of s e] Cons.IH [of "step_notes s e"]
    by (auto intro: prefix_order.trans)
qed

lemma mistakes_start [simp]:
  "incorrectlyAnsweredQuestions (startNewQuizRound session s) = []"
  by (simp add: startNewQuizRound_def resetRound_def split: prod.splits)

lemma mistakes_start_notes:
  "allQuestions s \<noteq> [] \<Longrightarrow>
   incorrectlyAnsweredQuestions (startNewQuizRound_notes srt session s) = []"
  by (simp add: startNewQuizRound_notes_def resetRound_def split: prod.splits)

lemma run_append: "run (evs @ evs') s = run evs' (run evs s)"
  by (simp add: run_def)

lemma run_notes_append: "run_notes (evs @ evs') s = run_notes evs' (run_notes evs s)"
  by (simp add: run_notes_def)

lemmas eval_defs =
  run_def run_notes_def startNewQuizRound_def questionsForRound_def
  sampleForRound_def getRandomQuestions_def shuffleArray_def fallbackNeeded_def
  resetRound_def initial_def handleAnswer_def handleSkip_def loadNextQuestion_def
  loadNextQuestion_notes_def handleGoBack_def handleGoBack_notes_def goBack_def
  goBack_notes_def backDisabled_def hasNext_def clearFeedbackAndTimeout_def
  shuffleAlternatives_def random_below_def swap_def recordMistake_def midRound_def
  q1_def q2_def q3_def altA_def altB_def toUpperCase_examples

subsection \<open>Facts about sampling\<close>

lemma uniq_snoc: "uniq (xs @ [x]) = (if x \<in> set xs then uniq xs else uniq xs @ [x])"
  by (simp add: uniq_def)

lemma uniq_set [simp]: "set (uniq xs) = set xs"
  by (simp add: uniq_def)

lemma uniq_distinct [simp]: "distinct (uniq xs)"
  by (simp add: uniq_def)

lemma uniq_length: "length (uniq xs) = length (remdups xs)"
  by (simp add: uniq_def length_remdups_card_conv)

lemma map_of_bySession:
  "map_of (bySession qs) k =
     (if k \<in> sourceKey ` set qs then Some (filter (\<lambda>q. sourceKey q = k) qs) else None)"
  by (auto simp: bySession_def map_of_map_restrict restrict_map_def)

lemma pushQuestion_bySession: "pushQuestion (bySession qs) q = bySession (qs @ [q])"
proof (cases "sourceKey q \<in> sourceKey ` set qs")
  case True
  then have "pushQuestion (bySession qs) q =
      map (\<lambda>(k, v). if k = sourceKey q then (k, v @ [q]) else (k, v)) (bySession qs)"
    by (simp add: pushQuestion_def map_of_bySession)
  also have "\<dots> = bySession (qs @ [q])"
    using True by (auto simp: bySession_def uniq_snoc)
  finally show ?thesis .
next
  case False
  then have e: "filter (\<lambda>q'. sourceKey q' = sourceKey q) qs = []"
    by (simp add: filter_empty_conv) (metis imageI)
  from False have "pushQuestion (bySession qs) q = bySession qs @ [(sourceKey q, [q])]"
    by (simp add: pushQuestion_def map_of_bySession)
  also have "\<dots> = bySession (qs @ [q])"
    using False e by (auto simp: bySession_def uniq_snoc)
  finally show ?thesis .
qed

lemma foldl_pushQuestion: "foldl pushQuestion [] qs = bySession qs"
proof (induction qs rule: rev_induct)
  case Nil
  then show ?case by (simp add: bySession_def uniq_def)
next
  case (snoc q qs)
  then show ?case by (simp add: pushQuestion_bySession)
qed

lemma questionsBySession_groups:
  "map snd (foldl pushQuestion [] qs) = partitionByTopic qs"
  by (simp add: foldl_pushQuestion bySession_def partitionByTopic_def comp_def)

lemma foldl_sampleSession:
  "foldl (sampleSession srt k) (acc, r) gs =
     (acc @ concat (fst (sampleEach srt k gs r)), snd (sampleEach srt k gs r))"
proof (induction gs arbitrary: acc r)
  case Nil
  then show ?case by simp
next
  case (Cons g gs)
  obtain sh r1 where s: "srt g r = (sh, r1)" by (cases "srt g r")
  show ?case
    using Cons.IH [of "acc @ take k sh" r1] s
    by (simp add: sampleSession_def split: prod.splits)
qed

lemma getSampledQuestions_spec:
  "getSampledQuestions srt pool k r =
     srt (concat (fst (sampleEach srt k (partitionByTopic pool) r)))
         (snd (sampleEach srt k (partitionByTopic pool) r))"
  by (simp add: getSampledQuestions_def questionsBySession_groups foldl_sampleSession
      split: prod.splits)


text \<open>sub-multiset facts\<close>

lemma mset_take_subset: "mset (take n xs) \<subseteq># mset xs"
  by (metis append_take_drop_id mset_append mset_subset_eq_add_left)

lemma rearranges_mset: "rearranges srt \<Longrightarrow> mset (fst (srt xs r)) = mset xs"
  by (simp add: rearranges_def)

lemma rearranges_length: "rearranges srt \<Longrightarrow> length (fst (srt xs r)) = length xs"
  by (metis rearranges_mset size_mset)

lemma rearranges_set: "rearranges srt \<Longrightarrow> set (fst (srt xs r)) = set xs"
  by (metis rearranges_mset set_mset_mset)

lemma sampleEach_subset:
  "rearranges srt \<Longrightarrow> mset (concat (fst (sampleEach srt k gs r))) \<subseteq># mset (concat gs)"
proof (induction gs arbitrary: r)
  case Nil
  then show ?case by simp
next
  case (Cons g gs)
  obtain sh r1 where s: "srt g r = (sh, r1)" by (cases "srt g r")
  have "mset sh = mset g" using rearranges_mset [OF Cons.prems, of g r] s by simp
  then have "mset (take k sh) \<subseteq># mset g"
    using mset_take_subset [of k sh] by simp
  moreover have "mset (concat (fst (sampleEach srt k gs r1))) \<subseteq># mset (concat gs)"
    using Cons by simp
  moreover have "concat (fst (sampleEach srt k (g # gs) r)) =
      take k sh @ concat (fst (sampleEach srt k gs r1))"
    using s by (simp split: prod.splits)
  ultimately show ?case
    by (simp add: subset_mset.add_mono)
qed

lemma partition_mset:
  "distinct ts \<Longrightarrow>
   mset (concat (map (\<lambda>t. filter (\<lambda>q. sourceKey q = t) pool) ts)) =
     filter_mset (\<lambda>q. sourceKey q \<in> set ts) (mset pool)"
proof (induction ts)
  case Nil
  then show ?case by simp
next
  case (Cons t ts)
  then have "mset (concat (map (\<lambda>t. filter (\<lambda>q. sourceKey q = t) pool) (t # ts))) =
      filter_mset (\<lambda>q. sourceKey q = t) (mset pool) +
      filter_mset (\<lambda>q. sourceKey q \<in> set ts) (mset pool)"
    by simp
  also have "\<dots> = filter_mset (\<lambda>q. sourceKey q \<in> set (t # ts)) (mset pool)"
    using Cons.prems by (intro multiset_eqI) auto
  finally show ?case .
qed

lemma partitionByTopic_mset: "mset (concat (partitionByTopic pool)) = mset pool"
proof -
  have "mset (concat (partitionByTopic pool)) =
      filter_mset (\<lambda>q. sourceKey q \<in> set (uniq (map sourceKey pool))) (mset pool)"
    unfolding partitionByTopic_def by (rule partition_mset) simp
  also have "\<dots> = mset pool"
    by (intro multiset_eqI) auto
  finally show ?thesis .
qed

lemma getSampledQuestions_subset:
  assumes "rearranges srt"
  shows "mset (fst (getSampledQuestions srt pool k r)) \<subseteq># mset pool"
  using sampleEach_subset [OF assms, of k "partitionByTopic pool" r]
  by (simp add: getSampledQuestions_spec rearranges_mset [OF assms] partitionByTopic_mset)

lemma mset_subset_filter_length:
  "mset xs \<subseteq># mset ys \<Longrightarrow> length (filter P xs) \<le> length (filter P ys)"
proof -
  assume "mset xs \<subseteq># mset ys"
  then have "filter_mset P (mset xs) \<subseteq># filter_mset P (mset ys)"
    by (rule multiset_filter_mono)
  then have "size (filter_mset P (mset xs)) \<le> size (filter_mset P (mset ys))"
    by (rule size_mset_mono)
  then show ?thesis by (metis mset_filter size_mset)
qed

lemma mset_subset_length: "mset xs \<subseteq># mset ys \<Longrightarrow> length xs \<le> length ys"
  by (metis size_mset size_mset_mono)

lemma getRandomQuestions_fst:
  "fst (getRandomQuestions qs n r) = take n (fst (shuffleArray qs r))"
  by (simp add: getRandomQuestions_def split: prod.splits)

lemma getRandomQuestions_length:
  "length (fst (getRandomQuestions qs n r)) = min n (length qs)"
  by (simp add: getRandomQuestions_fst min.commute)

lemma getRandomQuestions_subset: "mset (fst (getRandomQuestions qs n r)) \<subseteq># mset qs"
  using mset_take_subset [of n "fst (shuffleArray qs r)"]
  by (simp add: getRandomQuestions_fst)

lemma sampleForRound_fst:
  "fst (sampleForRound session s) =
     take (numQuestions s) (fst (shuffleArray (roundPool session s) (random s)))"
  by (simp add: sampleForRound_def roundPool_def getRandomQuestions_fst)

lemma activeQuestions_start:
  "activeQuestions (startNewQuizRound session s) = fst (questionsForRound session s)"
  by (simp add: startNewQuizRound_def resetRound_def split: prod.splits)

lemma questionsForRound_fst:
  "fst (questionsForRound session s) =
     (if fallbackNeeded (fst (sampleForRound session s)) s
      then fst (getRandomQuestions (allQuestions s) (min (numQuestions s) 5)
                  (snd (sampleForRound session s)))
      else fst (sampleForRound session s))"
  by (simp add: questionsForRound_def split: prod.splits)

lemma activeQuestions_start_notes:
  "activeQuestions (startNewQuizRound_notes srt session s) =
     (if allQuestions s = [] then [] else fst (questionsForRound_notes srt session s))"
  by (simp add: startNewQuizRound_notes_def resetRound_def split: prod.splits)

lemma questionsForRound_notes_fst:
  "fst (questionsForRound_notes srt session s) =
     (if fallbackNeeded (fst (sampleForRound_notes srt session s)) s
      then take (min (numQuestions s) (min 5 (length (allQuestions s))))
             (fst (srt (allQuestions s) (snd (sampleForRound_notes srt session s))))
      else fst (sampleForRound_notes srt session s))"
  by (simp add: questionsForRound_notes_def split: prod.splits)

lemma sampleForRound_notes_all:
  "fst (sampleForRound_notes srt ''all'' s) =
     take (numQuestions s)
       (fst (getSampledQuestions srt (allQuestions s)
          (ceil_div (numQuestions s)
             (if length (remdups (map sourceKey (allQuestions s))) > 0
              then length (remdups (map sourceKey (allQuestions s))) else 1))
          (random s)))"
  by (simp add: sampleForRound_notes_def Let_def split: prod.splits)

lemma sampleForRound_notes_session:
  "session \<noteq> ''all'' \<Longrightarrow>
   fst (sampleForRound_notes srt session s) =
     take (numQuestions s)
       (fst (srt (sessionQuestions_notes session (allQuestions s)) (random s)))"
  by (simp add: sampleForRound_notes_def Let_def split: prod.splits)

lemma sampleForRound_notes_subset:
  assumes "rearranges srt"
  shows "mset (fst (sampleForRound_notes srt session s)) \<subseteq># mset (roundPool_notes session s)"
proof (cases "session = ''all''")
  case True
  have "mset (fst (sampleForRound_notes srt ''all'' s)) \<subseteq># mset (allQuestions s)"
    unfolding sampleForRound_notes_all
    by (rule subset_mset.order_trans [OF mset_take_subset getSampledQuestions_subset [OF assms]])
  with True show ?thesis by (simp add: roundPool_notes_def)
next
  case False
  let ?qs = "sessionQuestions_notes session (allQuestions s)"
  have "mset (take (numQuestions s) (fst (srt ?qs (random s)))) \<subseteq># mset ?qs"
    using mset_take_subset [of "numQuestions s" "fst (srt ?qs (random s))"]
    by (simp add: rearranges_mset [OF assms])
  with False show ?thesis
    by (simp add: sampleForRound_notes_session roundPool_notes_def)
qed

lemma fallback_count_pos:
  "0 < n \<Longrightarrow> xs \<noteq> [] \<Longrightarrow> 0 < min (min n 5) (length xs)"
  by (cases xs) simp_all

lemma take_min_length: "take (min k (length xs)) xs = take k xs"
  by (simp add: min_def)

lemma ceil_div_cases:
  assumes "0 < b"
  shows "ceil_div a b = (if a mod b = 0 then a div b else a div b + 1)"
proof -
  define q r where "q = a div b" and "r = a mod b"
  have a: "a = r + q * b" and r: "r < b"
    using assms by (simp_all add: q_def r_def)
  show ?thesis
  proof (cases "r = 0")
    case True
    with a assms have "a + b - 1 = (b - 1) + q * b" by simp
    then have "(a + b - 1) div b = q + (b - 1) div b"
      using assms by (simp only: div_mult_self1)
    with True assms show ?thesis by (simp add: ceil_div_def q_def r_def)
  next
    case False
    with a have "a + b - 1 = (r - 1) + (q + 1) * b" by simp
    then have "(a + b - 1) div b = (q + 1) + (r - 1) div b"
      using assms by (simp only: div_mult_self1)
    with False r show ?thesis by (simp add: ceil_div_def q_def r_def)
  qed
qed

lemma ceil_div_ceiling:
  assumes "0 < b"
  shows "int (ceil_div a b) = \<lceil>real a / real b\<rceil>"
proof -
  have "\<lceil>real a / real b\<rceil> = \<lceil>of_int (int a) / (of_int (int b) :: real)\<rceil>" by simp
  also have "\<dots> = - (- int a div int b)"
    by (rule ceiling_divide_eq_div)
  also have "\<dots> = (if int a mod int b = 0 then int a div int b else int a div int b + 1)"
    using assms by (simp add: zdiv_zminus1_eq_if)
  also have "\<dots> = int (ceil_div a b)"
    using assms by (simp add: ceil_div_cases zdiv_int [symmetric] zmod_int [symmetric]
        del: of_nat_div of_nat_mod)
  finally show ?thesis by simp
qed

lemma ceil_div_pos: "0 < a \<Longrightarrow> 0 < b \<Longrightarrow> 0 < ceil_div a b"
  by (simp add: ceil_div_def div_greater_zero_iff)

lemma sampleEach_fst_Cons:
  "fst (sampleEach srt p (g # gs) r) =
     take p (fst (srt g r)) # fst (sampleEach srt p gs (snd (srt g r)))"
  by (simp split: prod.splits)

lemma sampleEach_other_source:
  assumes "rearranges srt" and "k \<notin> set ts"
  shows "fromSource k (concat (fst (sampleEach srt p
           (map (\<lambda>t. filter (\<lambda>q. sourceKey q = t) pool) ts) r))) = []"
  using assms(2)
proof (induction ts arbitrary: r)
  case Nil
  then show ?case by (simp add: fromSource_def)
next
  case (Cons t ts)
  let ?g = "filter (\<lambda>q. sourceKey q = t) pool"
  have "set (take p (fst (srt ?g r))) \<subseteq> set ?g"
    using set_take_subset [of p "fst (srt ?g r)"] rearranges_set [OF assms(1), of ?g r]
    by simp
  then have "fromSource k (take p (fst (srt ?g r))) = []"
    using Cons.prems by (auto simp: fromSource_def filter_empty_conv)
  moreover have "fromSource k (concat (fst (sampleEach srt p
           (map (\<lambda>t. filter (\<lambda>q. sourceKey q = t) pool) ts) (snd (srt ?g r))))) = []"
    using Cons by simp
  ultimately show ?case
    by (simp del: sampleEach.simps add: sampleEach_fst_Cons fromSource_def)
qed

lemma sampleEach_per_source:
  assumes "rearranges srt" and "distinct ts"
  shows "length (fromSource k (concat (fst (sampleEach srt p
           (map (\<lambda>t. filter (\<lambda>q. sourceKey q = t) pool) ts) r)))) \<le> p"
  using assms(2)
proof (induction ts arbitrary: r)
  case Nil
  then show ?case by (simp add: fromSource_def)
next
  case (Cons t ts)
  let ?g = "filter (\<lambda>q. sourceKey q = t) pool"
  let ?rest = "concat (fst (sampleEach srt p
           (map (\<lambda>t. filter (\<lambda>q. sourceKey q = t) pool) ts) (snd (srt ?g r))))"
  have split: "fromSource k (concat (fst (sampleEach srt p
           (map (\<lambda>t. filter (\<lambda>q. sourceKey q = t) pool) (t # ts)) r))) =
        fromSource k (take p (fst (srt ?g r))) @ fromSource k ?rest"
    by (simp del: sampleEach.simps add: sampleEach_fst_Cons fromSource_def)
  show ?case
  proof (cases "k = t")
    case True
    with Cons.prems have "k \<notin> set ts" by simp
    then have "fromSource k ?rest = []"
      by (rule sampleEach_other_source [OF assms(1)])
    moreover have "length (fromSource k (take p (fst (srt ?g r)))) \<le> p"
      unfolding fromSource_def
      by (rule order_trans [OF length_filter_le]) simp
    ultimately show ?thesis using split by simp
  next
    case False
    have "set (take p (fst (srt ?g r))) \<subseteq> set ?g"
      using set_take_subset [of p "fst (srt ?g r)"] rearranges_set [OF assms(1), of ?g r]
      by simp
    then have "fromSource k (take p (fst (srt ?g r))) = []"
      using False by (auto simp: fromSource_def filter_empty_conv)
    moreover have "length (fromSource k ?rest) \<le> p"
      using Cons by simp
    ultimately show ?thesis using split by simp
  qed
qed

lemma sampleEach_nonempty:
  assumes "rearranges srt" and "0 < p" and "gs \<noteq> []" and "hd gs \<noteq> []"
  shows "concat (fst (sampleEach srt p gs r)) \<noteq> []"
proof (cases gs)
  case Nil
  with assms show ?thesis by simp
next
  case (Cons g gs')
  with assms have "g \<noteq> []" by simp
  then have "fst (srt g r) \<noteq> []"
    using rearranges_length [OF assms(1), of g r] by auto
  with assms(2) have "take p (fst (srt g r)) \<noteq> []" by simp
  with Cons show ?thesis by (simp del: sampleEach.simps add: sampleEach_fst_Cons)
qed

lemma partitionByTopic_length:
  "length (partitionByTopic pool) = length (remdups (map sourceKey pool))"
  by (simp add: partitionByTopic_def uniq_length)

lemma partitionByTopic_nonempty:
  assumes "pool \<noteq> []"
  shows "partitionByTopic pool \<noteq> []" and "hd (partitionByTopic pool) \<noteq> []"
proof -
  have ne: "uniq (map sourceKey pool) \<noteq> []"
  proof
    assume "uniq (map sourceKey pool) = []"
    then have "set (uniq (map sourceKey pool)) = {}" by simp
    then have "set (map sourceKey pool) = {}" by (simp only: uniq_set)
    with assms show False by simp
  qed
  then show "partitionByTopic pool \<noteq> []" by (simp add: partitionByTopic_def)
  from ne have "hd (uniq (map sourceKey pool)) \<in> set (uniq (map sourceKey pool))"
    by (rule hd_in_set)
  then have "hd (uniq (map sourceKey pool)) \<in> set (map sourceKey pool)"
    by simp
  then have "filter (\<lambda>q. sourceKey q = hd (uniq (map sourceKey pool))) pool \<noteq> []"
    by (auto simp: filter_empty_conv)
  with ne show "hd (partitionByTopic pool) \<noteq> []"
    by (simp add: partitionByTopic_def hd_map)
qed

lemma spec_stratifiedRound_fst:
  "fst (spec_stratifiedRound srt pool n r) =
     take n (fst (getSampledQuestions srt pool (ceil_div n (length (partitionByTopic pool))) r))"
  by (simp add: spec_stratifiedRound_def getSampledQuestions_spec Let_def split: prod.splits)

lemma getSampledQuestions_nonempty:
  assumes "rearranges srt" and "0 < p" and "pool \<noteq> []"
  shows "fst (getSampledQuestions srt pool p r) \<noteq> []"
proof -
  have "concat (fst (sampleEach srt p (partitionByTopic pool) r)) \<noteq> []"
    using assms partitionByTopic_nonempty [OF assms(3)] by (intro sampleEach_nonempty)
  then have "length (fst (srt (concat (fst (sampleEach srt p (partitionByTopic pool) r)))
                 (snd (sampleEach srt p (partitionByTopic pool) r)))) \<noteq> 0"
    by (simp add: rearranges_length [OF assms(1)])
  then show ?thesis
    by (simp add: getSampledQuestions_spec)
qed

lemma getSampledQuestions_per_source:
  assumes "rearranges srt"
  shows "length (fromSource k (fst (getSampledQuestions srt pool p r))) \<le> p"
proof -
  let ?c = "concat (fst (sampleEach srt p (partitionByTopic pool) r))"
  have "mset (fst (getSampledQuestions srt pool p r)) = mset ?c"
    by (simp add: getSampledQuestions_spec rearranges_mset [OF assms])
  then have "length (fromSource k (fst (getSampledQuestions srt pool p r))) =
      length (fromSource k ?c)"
    unfolding fromSource_def
    by (intro le_antisym mset_subset_filter_length) simp_all
  also have "\<dots> \<le> p"
    unfolding partitionByTopic_def by (rule sampleEach_per_source [OF assms]) simp
  finally show ?thesis .
qed

lemma notes_all_is_stratified:
  assumes "rearranges srt"
  shows "activeQuestions (startNewQuizRound_notes srt ''all'' s) =
         fst (spec_stratifiedRound srt (allQuestions s) (numQuestions s) (random s))"
proof (cases "allQuestions s = []")
  case True
  have "fst (srt [] r) = []" for r
    using rearranges_length [OF assms, of "[]" r] by simp
  then have "fst (spec_stratifiedRound srt [] n r) = []" for n r
    by (simp add: spec_stratifiedRound_fst getSampledQuestions_spec partitionByTopic_def
        uniq_def)
  with True show ?thesis
    by (simp add: activeQuestions_start_notes)
next
  case False
  let ?g = "length (partitionByTopic (allQuestions s))"
  have g: "0 < ?g" using partitionByTopic_nonempty(1) [OF False] by simp
  have sam: "fst (sampleForRound_notes srt ''all'' s) =
      fst (spec_stratifiedRound srt (allQuestions s) (numQuestions s) (random s))"
    using g by (simp add: sampleForRound_notes_all spec_stratifiedRound_fst
        partitionByTopic_length)
  have "\<not> fallbackNeeded (fst (sampleForRound_notes srt ''all'' s)) s"
  proof (cases "numQuestions s = 0")
    case True
    then show ?thesis by (simp add: fallbackNeeded_def)
  next
    case n: False
    then have "0 < ceil_div (numQuestions s) ?g" using g by (simp add: ceil_div_pos)
    then have "fst (getSampledQuestions srt (allQuestions s) (ceil_div (numQuestions s) ?g)
                 (random s)) \<noteq> []"
      using False by (intro getSampledQuestions_nonempty [OF assms])
    with n have "fst (sampleForRound_notes srt ''all'' s) \<noteq> []"
      using g by (simp add: sampleForRound_notes_all partitionByTopic_length)
    then show ?thesis by (simp add: fallbackNeeded_def)
  qed
  with False sam show ?thesis
    by (simp add: activeQuestions_start_notes questionsForRound_notes_fst)
qed

lemma rearranges_reverseSort: "rearranges reverseSort"
  by (simp add: rearranges_def reverseSort_def)

section \<open>Properties of the quiz engine\<close>

text \<open>
  C10: for every input array (a reference \<open>a\<close> into the store), shuffleArray returns a new
  array that is a permutation of the input (same length, same multiset of elements), and
  the input array, like every other array of the store, is as it was.
\<close>

theorem C10_shuffleArray_permutation:
  assumes "a < length st"
  shows "case shuffleArray_st a st r of (b, st', r') \<Rightarrow>
           b \<noteq> a \<and> b < length st' \<and>
           mset (st' ! b) = mset (st ! a) \<and>
           length (st' ! b) = length (st ! a) \<and>
           st' ! a = st ! a \<and>
           (\<forall>c < length st. st' ! c = st ! c) \<and>
           st' ! b = fst (shuffleArray (st ! a) r)"
  using assms by (simp add: shuffleArray_st_pure nth_append)

theorem C10_shuffleArray_permutation_witness:
  "shuffleArray_st 0 [[1, 2, 3, 4::nat]] (\<lambda>k. k) = (1, [[1, 2, 3, 4], [3, 4, 2, 1]], \<lambda>k. Suc (Suc (Suc k)))
   \<and> mset [3, 4, 2, 1::nat] = mset [1, 2, 3, 4]"
  using C10_shuffleArray_permutation [of 0 "[[1, 2, 3, 4::nat]]" "\<lambda>k. k"]
  by (simp add: shuffleArray_st_def shuffleArray_def alloc_def random_below_def swap_def)

lemma oneQuestionRound_cells:
  "oneQuestionRound =
     \<lparr>allQuestions = [q1], activeQuestions = [q1], currentQuestionIndex = 0,
      currentQuestion = None, streak = 1, answerStatus = None,
      selectedAlternativeLabel = None, showSessionSelector = False,
      incorrectlyAnsweredQuestions = [], questionToReview = None, numQuestions = 10,
      answerHistory = [''1'' \<mapsto> (''a'', True)], feedbackTimeoutId = None,
      random = (\<lambda>k. 0)\<rparr>"
  by (simp add: oneQuestionRound_def run_def startNewQuizRound_def questionsForRound_def
      sampleForRound_def getRandomQuestions_def shuffleArray_def fallbackNeeded_def
      resetRound_def initial_def handleAnswer_def loadNextQuestion_def hasNext_def
      clearFeedbackAndTimeout_def q1_def altA_def toUpperCase_examples)

text \<open>
  C2: the Back button calls \<^verbatim>\<open>handleGoBack\<close> only when \<open>currentQuestionIndex > 0\<close>
  and no answer or skip outcome is on display; otherwise the click changes nothing. When
  it is accepted, the index goes down by exactly one, the pending outcome (status,
  selected label, timer) is cleared, and the streak, the mistakes, the answer history and
  the round's question list are as before. On both pages.
\<close>

theorem C2_goBack:
  "(\<not> (currentQuestionIndex s > 0 \<and> answerStatus s = None) \<longrightarrow>
      goBack s = s \<and> goBack_notes s = s) \<and>
   (currentQuestionIndex s > 0 \<and> answerStatus s = None \<longrightarrow>
      currentQuestionIndex (goBack s) = currentQuestionIndex s - 1 \<and>
      answerStatus (goBack s) = None \<and>
      selectedAlternativeLabel (goBack s) = None \<and>
      feedbackTimeoutId (goBack s) = None \<and>
      streak (goBack s) = streak s \<and>
      incorrectlyAnsweredQuestions (goBack s) = incorrectlyAnsweredQuestions s \<and>
      answerHistory (goBack s) = answerHistory s \<and>
      activeQuestions (goBack s) = activeQuestions s \<and>
      currentQuestionIndex (goBack_notes s) = currentQuestionIndex s - 1 \<and>
      answerStatus (goBack_notes s) = None \<and>
      selectedAlternativeLabel (goBack_notes s) = None \<and>
      feedbackTimeoutId (goBack_notes s) = None \<and>
      streak (goBack_notes s) = streak s \<and>
      incorrectlyAnsweredQuestions (goBack_notes s) = incorrectlyAnsweredQuestions s \<and>
      answerHistory (goBack_notes s) = answerHistory s \<and>
      activeQuestions (goBack_notes s) = activeQuestions s)"
  by (auto simp: goBack_def goBack_notes_def backDisabled_def handleGoBack_def
      handleGoBack_notes_def clearFeedbackAndTimeout_def Let_def split: prod.splits)

theorem C2_goBack_witness:
  "currentQuestionIndex (goBack midRound) = 0 \<and>
   answerStatus (goBack midRound) = None \<and>
   streak (goBack midRound) = 2 \<and>
   activeQuestions (goBack_notes midRound) = [q1, q2, q3] \<and>
   currentQuestionIndex (goBack_notes midRound) = 0 \<and>
   goBack (midRound\<lparr>answerStatus := Some Skipped\<rparr>) = midRound\<lparr>answerStatus := Some Skipped\<rparr> \<and>
   goBack_notes (midRound\<lparr>currentQuestionIndex := 0\<rparr>) = midRound\<lparr>currentQuestionIndex := 0\<rparr>"
  using C2_goBack [of midRound] C2_goBack [of "midRound\<lparr>answerStatus := Some Skipped\<rparr>"]
    C2_goBack [of "midRound\<lparr>currentQuestionIndex := 0\<rparr>"]
  by (simp add: midRound_def initial_def)

text \<open>
  C3: the invalid calls change nothing and raise nothing (each handler returns the state it
  was given): \<^verbatim>\<open>handleAnswer\<close> and \<^verbatim>\<open>handleSkip\<close> when no question is shown or an
  outcome is already recorded for the shown question, \<^verbatim>\<open>handleGoBack\<close> at index 0, and
  \<^verbatim>\<open>loadNextQuestion\<close> once the round is complete. \<open>round_inv\<close> holds in every state of
  a round (\<open>round_inv_startNewQuizRound\<close>, \<open>round_inv_run\<close> and their notes-quiz twins).
\<close>

theorem C3_invalid_calls:
  "((currentQuestion s = None \<or> answerStatus s \<noteq> None) \<longrightarrow>
      handleAnswer alt s = s \<and> handleSkip s = s) \<and>
   (currentQuestionIndex s = 0 \<longrightarrow> handleGoBack s = s \<and> handleGoBack_notes s = s) \<and>
   (round_inv s \<and> roundComplete s \<longrightarrow>
      loadNextQuestion skipped s = s \<and> loadNextQuestion_notes skipped s = s)"
  using handleAnswer_noop [of s alt] handleSkip_noop [of s] handleGoBack_noop [of s]
    handleGoBack_notes_noop [of s] loadNextQuestion_complete [of s skipped]
    loadNextQuestion_notes_complete [of s skipped]
  by blast

theorem C3_invalid_calls_witness:
  "round_inv oneQuestionRound \<and> roundComplete oneQuestionRound \<and>
   handleAnswer altB oneQuestionRound = oneQuestionRound \<and>
   handleSkip oneQuestionRound = oneQuestionRound \<and>
   handleGoBack oneQuestionRound = oneQuestionRound \<and>
   handleGoBack_notes oneQuestionRound = oneQuestionRound \<and>
   loadNextQuestion False oneQuestionRound = oneQuestionRound \<and>
   loadNextQuestion_notes True oneQuestionRound = oneQuestionRound \<and>
   handleAnswer altB (handleAnswer altA midRound) = handleAnswer altA midRound"
proof -
  have inv: "round_inv oneQuestionRound"
    unfolding oneQuestionRound_def
    by (intro round_inv_run round_inv_startNewQuizRound)
  have fin: "roundComplete oneQuestionRound"
    by (simp add: oneQuestionRound_cells roundComplete_def)
  have cells: "currentQuestion oneQuestionRound = None"
    "currentQuestionIndex oneQuestionRound = 0"
    by (simp_all add: oneQuestionRound_cells)
  have st: "answerStatus (handleAnswer altA midRound) \<noteq> None"
    by (simp add: handleAnswer_def midRound_def initial_def Let_def)
  show ?thesis
    using C3_invalid_calls [of oneQuestionRound altB False]
      C3_invalid_calls [of oneQuestionRound altB True]
      C3_invalid_calls [of "handleAnswer altA midRound" altB False]
      inv fin cells st
    by simp
qed







text \<open>
  C8: in a round with a question shown, at an index above 0 and with no outcome on display,
  a step back followed at once by \<^verbatim>\<open>loadNextQuestion\<close> ends at the index it started
  from, and the question then shown is the round's question at that index with the same
  set of choices as the one shown before (the notes quiz may have reordered them).
\<close>

theorem C8_goBack_then_advance:
  assumes "round_inv s" and "\<not> showSessionSelector s" and "currentQuestion s = Some q"
    and "currentQuestionIndex s > 0" and "answerStatus s = None"
  shows "currentQuestionIndex (loadNextQuestion skipped (goBack s)) = currentQuestionIndex s \<and>
         (\<exists>q'. currentQuestion (loadNextQuestion skipped (goBack s)) = Some q' \<and>
               presents q' (activeQuestions s ! currentQuestionIndex s) \<and>
               choices q' = choices q) \<and>
         currentQuestionIndex (loadNextQuestion_notes skipped (goBack_notes s)) =
           currentQuestionIndex s \<and>
         (\<exists>q'. currentQuestion (loadNextQuestion_notes skipped (goBack_notes s)) = Some q' \<and>
               presents q' (activeQuestions s ! currentQuestionIndex s) \<and>
               choices q' = choices q)"
proof -
  let ?i = "currentQuestionIndex s"
  let ?a = "activeQuestions s ! ?i"
  from assms have lt: "?i < length (activeQuestions s)" and pq: "presents q ?a"
    by (auto simp: round_inv_def)
  have cq: "choices ?a = choices q"
    using presents_choices [OF pq] by simp
  have suc: "Suc (?i - 1) = ?i" using assms(4) by simp
  text \<open>main page\<close>
  let ?b = "handleGoBack s"
  have b: "currentQuestionIndex ?b = ?i - 1" "activeQuestions ?b = activeQuestions s"
    using assms(4) by (simp_all add: handleGoBack_def clearFeedbackAndTimeout_def Let_def)
  have hn: "hasNext ?b" using b lt suc by (simp add: hasNext_iff)
  have m: "currentQuestionIndex (loadNextQuestion skipped ?b) = ?i"
    "currentQuestion (loadNextQuestion skipped ?b) = Some ?a"
    using hn b lt suc by (simp_all add: loadNextQuestion_def clearFeedbackAndTimeout_def Let_def)
  text \<open>notes quiz\<close>
  let ?c = "handleGoBack_notes s"
  have c: "currentQuestionIndex ?c = ?i - 1" "activeQuestions ?c = activeQuestions s"
    using assms(4)
    by (simp_all add: handleGoBack_notes_def clearFeedbackAndTimeout_def Let_def split: prod.splits)
  have hc: "hasNext ?c" using c lt suc by (simp add: hasNext_iff)
  obtain shown r' where sh:
    "shuffleAlternatives (at_index (activeQuestions ?c) ?i) (random ?c) = (Some shown, r')"
    "presents shown ?a"
    using shuffleAlternatives_at_index [of ?i "activeQuestions ?c" "random ?c"] lt c
    by (cases "shuffleAlternatives (at_index (activeQuestions ?c) ?i) (random ?c)") auto
  have n: "currentQuestionIndex (loadNextQuestion_notes skipped ?c) = ?i"
    "currentQuestion (loadNextQuestion_notes skipped ?c) = Some shown"
    using hc c suc sh(1)
    by (simp_all add: loadNextQuestion_notes_def clearFeedbackAndTimeout_def Let_def
        split: prod.splits)
  from m n sh(2) cq presents_choices [OF sh(2)]
  show ?thesis
    using goBack_enabled [OF assms(4,5)] by simp
qed

theorem C8_goBack_then_advance_witness:
  "currentQuestionIndex (loadNextQuestion False (goBack midRound)) = 1 \<and>
   currentQuestion (loadNextQuestion False (goBack midRound)) = Some q2 \<and>
   currentQuestionIndex (loadNextQuestion_notes False (goBack_notes midRound)) = 1 \<and>
   currentQuestion (loadNextQuestion_notes False (goBack_notes midRound)) =
     Some (q2\<lparr>alternatives := JArray [altB, altA]\<rparr>) \<and>
   choices (q2\<lparr>alternatives := JArray [altB, altA]\<rparr>) = choices q2"
proof -
  have inv: "round_inv midRound"
    by (simp add: round_inv_def midRound_def initial_def)
  have pre: "\<not> showSessionSelector midRound" "currentQuestion midRound = Some q2"
    "currentQuestionIndex midRound > 0" "answerStatus midRound = None"
    by (simp_all add: midRound_def initial_def)
  have ev: "currentQuestion (loadNextQuestion False (goBack midRound)) = Some q2"
    "currentQuestion (loadNextQuestion_notes False (goBack_notes midRound)) =
       Some (q2\<lparr>alternatives := JArray [altB, altA]\<rparr>)"
    by (simp_all add: eval_defs)
  show ?thesis
    using C8_goBack_then_advance [OF inv pre, of False] ev
    by (simp add: midRound_def initial_def)
qed






text \<open>
  C7: the round's question list is never longer than \<open>numQuestions\<close>, and never longer
  than the pool it was drawn from: the filtered pool, or the whole pool when the fallback
  applies. On both pages.
\<close>

theorem C7_round_length:
  "length (activeQuestions (startNewQuizRound session s)) \<le> numQuestions s \<and>
   (if fallbackNeeded (fst (sampleForRound session s)) s
    then length (activeQuestions (startNewQuizRound session s)) \<le> length (allQuestions s)
    else length (activeQuestions (startNewQuizRound session s))
           \<le> length (roundPool session s)) \<and>
   (rearranges srt \<longrightarrow>
      length (activeQuestions (startNewQuizRound_notes srt session s)) \<le> numQuestions s \<and>
      (if fallbackNeeded (fst (sampleForRound_notes srt session s)) s
       then length (activeQuestions (startNewQuizRound_notes srt session s))
              \<le> length (allQuestions s)
       else length (activeQuestions (startNewQuizRound_notes srt session s))
              \<le> length (roundPool_notes session s)))"
proof -
  have m1: "length (activeQuestions (startNewQuizRound session s)) \<le> numQuestions s"
    by (auto simp: activeQuestions_start questionsForRound_fst getRandomQuestions_length
        sampleForRound_fst)
  have m2: "length (activeQuestions (startNewQuizRound session s)) \<le> length (allQuestions s)"
    if "fallbackNeeded (fst (sampleForRound session s)) s"
    using that
    by (simp add: activeQuestions_start questionsForRound_fst getRandomQuestions_length)
  have m3: "length (activeQuestions (startNewQuizRound session s)) \<le> length (roundPool session s)"
    if "\<not> fallbackNeeded (fst (sampleForRound session s)) s"
    using that
    by (simp add: activeQuestions_start questionsForRound_fst sampleForRound_fst)
  have n: "length (activeQuestions (startNewQuizRound_notes srt session s)) \<le> numQuestions s \<and>
      (if fallbackNeeded (fst (sampleForRound_notes srt session s)) s
       then length (activeQuestions (startNewQuizRound_notes srt session s))
              \<le> length (allQuestions s)
       else length (activeQuestions (startNewQuizRound_notes srt session s))
              \<le> length (roundPool_notes session s))"
    if r: "rearranges srt"
  proof -
    have le: "length (fst (sampleForRound_notes srt session s)) \<le> numQuestions s"
      by (cases "session = ''all''")
         (simp_all add: sampleForRound_notes_all sampleForRound_notes_session)
    have sub: "length (fst (sampleForRound_notes srt session s))
                \<le> length (roundPool_notes session s)"
      using sampleForRound_notes_subset [OF r] by (rule mset_subset_length)
    show ?thesis
      using le sub
      by (auto simp: activeQuestions_start_notes questionsForRound_notes_fst
          rearranges_length [OF r])
  qed
  from m1 m2 m3 n show ?thesis by simp
qed

theorem C7_round_length_witness:
  "rearranges reverseSort \<and>
   length (activeQuestions (startNewQuizRound ''s2.pdf'' (initial [q1, q2, q3] 10 (\<lambda>k. 5)))) = 1 \<and>
   length (activeQuestions (startNewQuizRound ''none'' (initial [q1, q2, q3] 2 (\<lambda>k. 5)))) = 2 \<and>
   length (activeQuestions
     (startNewQuizRound_notes reverseSort ''s1.pdf'' (initial [q1, q2, q3] 10 (\<lambda>k. 5)))) = 2 \<and>
   length (activeQuestions
     (startNewQuizRound_notes reverseSort ''all'' (initial [q1, q2, q3] 2 (\<lambda>k. 5)))) \<le> 2"
proof -
  have ev:
    "activeQuestions (startNewQuizRound ''s2.pdf'' (initial [q1, q2, q3] 10 (\<lambda>k. 5))) = [q3]"
    "activeQuestions (startNewQuizRound ''none'' (initial [q1, q2, q3] 2 (\<lambda>k. 5))) = [q1, q2]"
    "activeQuestions
      (startNewQuizRound_notes reverseSort ''s1.pdf'' (initial [q1, q2, q3] 10 (\<lambda>k. 5))) = [q2, q1]"
    by code_simp+
  have cells: "numQuestions (initial [q1, q2, q3] 2 (\<lambda>k. 5)) = 2"
    by (simp add: initial_def)
  show ?thesis
    using C7_round_length [of "''all''" "initial [q1, q2, q3] 2 (\<lambda>k. 5)" reverseSort]
      rearranges_reverseSort ev cells
    by simp
qed

end
